theory Spec2Isabelle
  imports Complex_Main
begin

section \<open>The telemetry simulator (telemetry\_simulator.py)\<close>

text \<open>
  Python floats are modelled as the reals: \<open>+\<close>, \<open>*\<close>, \<open>/\<close>, \<open>sin\<close> and \<open>exp\<close>
  are the exact operations. Rounding is modelled for the one sum that accumulates over
  the calls, the clock, in a subsection of its own. The values returned by
  \<^verbatim>\<open>np.random.normal\<close> are a parameter of \<open>get_next\<close>, one field per call site.
  numpy arrays are mutable objects: they live in a store, and the simulator object and
  the returned packet hold their addresses.
\<close>

subsection \<open>Arrays and the store\<close>

type_synonym addr = nat
type_synonym ndarray = "real list"

datatype error = IndexError

record heap =
  cells :: "addr \<Rightarrow> ndarray"
  next_addr :: addr

definition empty_heap :: heap where
  "empty_heap = \<lparr>cells = (\<lambda>_. []), next_addr = 0\<rparr>"

text \<open>Creating a new array object: it gets the next unused address.\<close>

definition alloc :: "heap \<Rightarrow> ndarray \<Rightarrow> addr \<times> heap" where
  "alloc h xs =
     (next_addr h, h\<lparr>cells := (cells h)(next_addr h := xs), next_addr := Suc (next_addr h)\<rparr>)"

text \<open>\<^verbatim>\<open>np.linspace(start, stop, num)\<close>: \<open>num\<close> evenly spaced points, the last one set
  to \<open>stop\<close>.\<close>

definition linspace :: "real \<Rightarrow> real \<Rightarrow> nat \<Rightarrow> ndarray" where
  "linspace start stop num =
     (if num = 0 then []
      else if num = 1 then [start]
      else (map (\<lambda>i. start + real i * ((stop - start) / real (num - 1))) [0..<num])
             [num - 1 := stop])"

text \<open>\<^verbatim>\<open>np.zeros_like(a)\<close>.\<close>

definition zeros_like :: "ndarray \<Rightarrow> ndarray" where
  "zeros_like xs = replicate (length xs) 0"

text \<open>\<^verbatim>\<open>np.roll(a, -1)\<close> on a one-dimensional array: a new array, every element moved
  one place to the left, the first one to the end.\<close>

definition np_roll :: "heap \<Rightarrow> addr \<Rightarrow> addr \<times> heap" where
  "np_roll h a = alloc h (rotate1 (cells h a))"

text \<open>\<^verbatim>\<open>a.copy()\<close>.\<close>

definition np_copy :: "heap \<Rightarrow> addr \<Rightarrow> addr \<times> heap" where
  "np_copy h a = alloc h (cells h a)"

text \<open>Python indexing: a negative index counts from the end, an index out of range raises
  \<^verbatim>\<open>IndexError\<close>.\<close>

definition norm_index :: "nat \<Rightarrow> int \<Rightarrow> error + nat" where
  "norm_index n i =
     (let j = (if i < 0 then int n + i else i)
      in if 0 \<le> j \<and> j < int n then Inr (nat j) else Inl IndexError)"

text \<open>\<^verbatim>\<open>a[i]\<close> and \<^verbatim>\<open>a[i] = v\<close> (the array object is changed in place).\<close>

definition getitem :: "heap \<Rightarrow> addr \<Rightarrow> int \<Rightarrow> error + real" where
  "getitem h a i =
     (case norm_index (length (cells h a)) i of
        Inl e \<Rightarrow> Inl e
      | Inr j \<Rightarrow> Inr (cells h a ! j))"

definition setitem :: "heap \<Rightarrow> addr \<Rightarrow> int \<Rightarrow> real \<Rightarrow> error + heap" where
  "setitem h a i v =
     (case norm_index (length (cells h a)) i of
        Inl e \<Rightarrow> Inl e
      | Inr j \<Rightarrow> Inr (h\<lparr>cells := (cells h)(a := (cells h a)[j := v])\<rparr>))"

text \<open>Python's \<^verbatim>\<open>x % m\<close> on floats: the result has the sign of \<open>m\<close>.\<close>

definition py_mod :: "real \<Rightarrow> real \<Rightarrow> real" where
  "py_mod x m = x - m * of_int \<lfloor>x / m\<rfloor>"

subsection \<open>The simulator object\<close>

record simulator =
  elapsed_seconds :: real
  velocity_time :: addr
  velocity_data :: addr
  gforce_time :: addr
  gforce_data :: addr

type_synonym state = "heap \<times> simulator"

text \<open>The five draws of \<^verbatim>\<open>np.random.normal\<close> of one call of \<open>get_next\<close>, in the order of
  the calls.\<close>

record noise =
  n_pressure :: real
  n_temperature :: real
  n_latency :: real
  n_velocity :: real
  n_gforce :: real

definition zero_noise :: noise where
  "zero_noise = \<lparr>n_pressure = 0, n_temperature = 0, n_latency = 0, n_velocity = 0, n_gforce = 0\<rparr>"

text \<open>The returned dictionary. In an \<open>addr sample\<close> the four arrays are addresses in
  the store, as in the program; an \<open>ndarray sample\<close> holds their contents.\<close>

record 'a sample =
  pressure :: real
  temperature :: real
  altitude :: real
  altitude_rate :: real
  latency :: real
  pkt_velocity_time :: 'a
  pkt_velocity_data :: 'a
  pkt_gforce_time :: 'a
  pkt_gforce_data :: 'a
  new_velocity :: real
  new_gforce :: real

text \<open>\<^verbatim>\<open>__init__\<close> and \<^verbatim>\<open>reset\<close> have the same body; \<open>reset\<close> keeps the object and
  rebinds its five attributes.\<close>

definition reset :: "state \<Rightarrow> state" where
  "reset st =
     (let (h0, s) = st;
          (vt, h1) = alloc h0 (linspace (-120) 0 100);
          (vd, h2) = alloc h1 (zeros_like (cells h1 vt));
          (gt, h3) = alloc h2 (linspace (-1.5) 4.0 100);
          (gd, h4) = alloc h3 (zeros_like (cells h3 gt))
      in (h4, s\<lparr>elapsed_seconds := 0, velocity_time := vt, velocity_data := vd,
                gforce_time := gt, gforce_data := gd\<rparr>))"

definition init :: state where
  "init =
     (let (vt, h1) = alloc empty_heap (linspace (-120) 0 100);
          (vd, h2) = alloc h1 (zeros_like (cells h1 vt));
          (gt, h3) = alloc h2 (linspace (-1.5) 4.0 100);
          (gd, h4) = alloc h3 (zeros_like (cells h3 gt))
      in (h4, \<lparr>elapsed_seconds = 0, velocity_time = vt, velocity_data = vd,
               gforce_time = gt, gforce_data = gd\<rparr>))"

definition get_next :: "state \<Rightarrow> real \<Rightarrow> noise \<Rightarrow> error + (addr sample \<times> state)" where
  "get_next st dt nz =
     (let (h0, s0) = st;
          s1 = s0\<lparr>elapsed_seconds := elapsed_seconds s0 + dt\<rparr>;
          t = elapsed_seconds s1;
          p = 101.3 + sin (t / 10) * 2 + n_pressure nz;
          tmp = 24.8 + sin (t / 15 + 1) * 3 + n_temperature nz;
          alt = 1245.8 + t * 2.5 + sin (t / 8) * 50;
          alt_rate = 12.4 + sin (t / 7) * 8;
          lat0 = 24 + n_latency nz;
          lat = max 10 (min 100 lat0);
          nv0 = 15 + 10 * sin (t / 20) + n_velocity nz;
          nv = max 0 nv0;
          (vd, h1) = np_roll h0 (velocity_data s1);
          s2 = s1\<lparr>velocity_data := vd\<rparr>
      in case setitem h1 (velocity_data s2) (-1) nv of
           Inl e \<Rightarrow> Inl e
         | Inr h2 \<Rightarrow>
        (let (gt, h3) = np_roll h2 (gforce_time s2);
             s3 = s2\<lparr>gforce_time := gt\<rparr>
         in case getitem h3 (gforce_time s3) (-2) of
              Inl e \<Rightarrow> Inl e
            | Inr g2 \<Rightarrow>
           (case setitem h3 (gforce_time s3) (-1) (g2 + 0.055) of
              Inl e \<Rightarrow> Inl e
            | Inr h4 \<Rightarrow>
             (let ng0 = 2 + 3 * exp (- ((py_mod t 30 - 15)\<^sup>2) / 50) + n_gforce nz;
                  ng = max 0 ng0;
                  (gd, h5) = np_roll h4 (gforce_data s3);
                  s4 = s3\<lparr>gforce_data := gd\<rparr>
              in case setitem h5 (gforce_data s4) (-1) ng of
                   Inl e \<Rightarrow> Inl e
                 | Inr h6 \<Rightarrow>
                  (let (c1, h7) = np_copy h6 (velocity_time s4);
                       (c2, h8) = np_copy h7 (velocity_data s4);
                       (c3, h9) = np_copy h8 (gforce_time s4);
                       (c4, h10) = np_copy h9 (gforce_data s4)
                   in Inr (\<lparr>pressure = p, temperature = tmp, altitude = alt,
                             altitude_rate = alt_rate, latency = lat,
                             pkt_velocity_time = c1, pkt_velocity_data = c2,
                             pkt_gforce_time = c3, pkt_gforce_data = c4,
                             new_velocity = nv, new_gforce = ng\<rparr>, (h10, s4)))))))"

subsection \<open>Observations, the consumer and reachable states\<close>

text \<open>What the simulator object holds: its clock and the contents of its four arrays.\<close>

record sim_view =
  v_clock :: real
  v_velocity_time :: ndarray
  v_velocity_data :: ndarray
  v_gforce_time :: ndarray
  v_gforce_data :: ndarray

definition view_of :: "state \<Rightarrow> sim_view" where
  "view_of st =
     (let (h, s) = st
      in \<lparr>v_clock = elapsed_seconds s,
          v_velocity_time = cells h (velocity_time s),
          v_velocity_data = cells h (velocity_data s),
          v_gforce_time = cells h (gforce_time s),
          v_gforce_data = cells h (gforce_data s)\<rparr>)"

text \<open>The array objects the simulator's attributes point to, and those of a packet.\<close>

definition owned :: "simulator \<Rightarrow> addr set" where
  "owned s = {velocity_time s, velocity_data s, gforce_time s, gforce_data s}"

definition pkt_arrays :: "addr sample \<Rightarrow> addr set" where
  "pkt_arrays smp =
     {pkt_velocity_time smp, pkt_velocity_data smp, pkt_gforce_time smp, pkt_gforce_data smp}"

text \<open>The contents of a packet, read from the store.\<close>

definition packet_of :: "heap \<Rightarrow> addr sample \<Rightarrow> ndarray sample" where
  "packet_of h smp =
     \<lparr>pressure = pressure smp, temperature = temperature smp, altitude = altitude smp,
      altitude_rate = altitude_rate smp, latency = latency smp,
      pkt_velocity_time = cells h (pkt_velocity_time smp),
      pkt_velocity_data = cells h (pkt_velocity_data smp),
      pkt_gforce_time = cells h (pkt_gforce_time smp),
      pkt_gforce_data = cells h (pkt_gforce_data smp),
      new_velocity = new_velocity smp, new_gforce = new_gforce smp\<rparr>"

definition buffer_lengths :: "state \<Rightarrow> nat list" where
  "buffer_lengths st =
     (let v = view_of st
      in [length (v_velocity_time v), length (v_velocity_data v),
          length (v_gforce_time v), length (v_gforce_data v)])"

text \<open>A consumer changing an array it holds, in place, to any contents.\<close>

definition consumer_write :: "state \<Rightarrow> addr \<Rightarrow> ndarray \<Rightarrow> state" where
  "consumer_write st a xs = (let (h, s) = st in (h\<lparr>cells := (cells h)(a := xs)\<rparr>, s))"

text \<open>The states of a program that constructs one simulator, calls \<open>reset\<close> and
  \<open>get_next\<close> in any order with any arguments and any noise, and changes the arrays of
  the packets it was given in any way. The set is that of the arrays handed out so far.\<close>

inductive reach :: "state \<Rightarrow> addr set \<Rightarrow> bool" where
  reach_init: "reach init {}"
| reach_reset: "reach st H \<Longrightarrow> reach (reset st) H"
| reach_get_next:
    "reach st H \<Longrightarrow> get_next st dt nz = Inr (smp, st') \<Longrightarrow> reach st' (H \<union> pkt_arrays smp)"
| reach_write: "reach st H \<Longrightarrow> a \<in> H \<Longrightarrow> reach (consumer_write st a xs) H"

text \<open>A sequence of \<open>get_next\<close> calls: the packet contents and the simulator's contents
  after each call.\<close>

fun trace :: "state \<Rightarrow> (real \<times> noise) list \<Rightarrow> error + (ndarray sample \<times> sim_view) list" where
  "trace st [] = Inr []"
| "trace st ((dt, nz) # rest) =
     (case get_next st dt nz of
        Inl e \<Rightarrow> Inl e
      | Inr (smp, st') \<Rightarrow>
         (case trace st' rest of
            Inl e \<Rightarrow> Inl e
          | Inr obs \<Rightarrow> Inr ((packet_of (fst st') smp, view_of st') # obs)))"


text \<open>The invariant of the reachable states: the simulator's arrays are allocated, none
  of them was handed out, each has 100 elements, the velocity time axis is the initial one
  and the g-force time axis is strictly increasing.\<close>

definition inv :: "state \<Rightarrow> addr set \<Rightarrow> bool" where
  "inv st H =
     (let (h, s) = st
      in velocity_time s < next_addr h \<and> velocity_data s < next_addr h
         \<and> gforce_time s < next_addr h \<and> gforce_data s < next_addr h
         \<and> velocity_time s \<notin> H \<and> velocity_data s \<notin> H
         \<and> gforce_time s \<notin> H \<and> gforce_data s \<notin> H
         \<and> Ball H (\<lambda>a. a < next_addr h)
         \<and> cells h (velocity_time s) = linspace (-120) 0 100
         \<and> length (cells h (velocity_data s)) = 100
         \<and> length (cells h (gforce_time s)) = 100
         \<and> length (cells h (gforce_data s)) = 100
         \<and> sorted_wrt (<) (cells h (gforce_time s)))"


subsection \<open>The clock in double arithmetic\<close>

text \<open>
  \<open>get_next\<close> above adds the step to the clock exactly. The program adds two IEEE
  doubles: the result is the exact sum rounded to the nearest double. The packets and the
  buffers do not depend on that rounding, the growth of the clock does; the definitions
  of this subsection give the clock of line 42 with the rounding.
\<close>

text \<open>Rounding to the nearest integer, a tie to the even one.\<close>

definition round_half_even :: "real \<Rightarrow> int" where
  "round_half_even q =
     (let f = \<lfloor>q\<rfloor>; r = q - of_int f
      in if r < 1/2 then f else if 1/2 < r then f + 1 else if even f then f else f + 1)"

text \<open>The binary exponent of the spacing of the doubles around \<open>x\<close>: 53 significant bits,
  and the spacing \<open>2 powi (-1074)\<close> of the subnormal numbers at the least.\<close>

definition ulp_exp :: "real \<Rightarrow> int" where
  "ulp_exp x = max (\<lfloor>log 2 \<bar>x\<bar>\<rfloor> - 52) (-1074)"

text \<open>The double nearest to a real number, a tie to the one with the even significand (the
  rounding of IEEE 754 binary64, without the bound on the exponent).\<close>

definition float_round :: "real \<Rightarrow> real" where
  "float_round x =
     (if x = 0 then 0
      else of_int (round_half_even (x / 2 powi ulp_exp x)) * 2 powi ulp_exp x)"

text \<open>The largest finite double, and the finite doubles.\<close>

definition max_double :: real where
  "max_double = (2 ^ 53 - 1) * 2 ^ 971"

definition is_double :: "real \<Rightarrow> bool" where
  "is_double x \<longleftrightarrow> float_round x = x \<and> \<bar>x\<bar> \<le> max_double"

text \<open>The sum of two doubles as the hardware computes it: the exact sum, rounded. \<open>None\<close> is
  the overflow, where the result is an infinity.\<close>

definition float_add :: "real \<Rightarrow> real \<Rightarrow> real option" where
  "float_add a b =
     (let r = float_round (a + b) in if \<bar>r\<bar> \<le> max_double then Some r else None)"

text \<open>Line 42, \<^verbatim>\<open>self.elapsed_seconds += dt\<close>, with the rounding: the clock after one call,
  and the clocks after each call of a sequence of calls.\<close>

definition advance_clock :: "real \<Rightarrow> real \<Rightarrow> real option" where
  "advance_clock c dt = float_add c dt"

fun clock_run :: "real \<Rightarrow> real list \<Rightarrow> real list option" where
  "clock_run c [] = Some []"
| "clock_run c (dt # dts) =
     (case advance_clock c dt of
        None \<Rightarrow> None
      | Some c' \<Rightarrow> (case clock_run c' dts of None \<Rightarrow> None | Some cs \<Rightarrow> Some (c' # cs)))"

section \<open>Properties\<close>

subsection \<open>Arrays\<close>


lemma rotate1_set_last:
  "xs \<noteq> [] \<Longrightarrow> (rotate1 xs)[length xs - Suc 0 := v] = tl xs @ [v]"
  by (cases xs) (simp_all add: list_update_append)

lemma rotate1_nth_penult:
  "Suc (Suc 0) \<le> length xs \<Longrightarrow> rotate1 xs ! (length xs - Suc (Suc 0)) = last xs"
  by (cases xs) (auto simp: nth_append last_conv_nth)

lemma norm_index_m1: "xs \<noteq> [] \<Longrightarrow> norm_index (length xs) (-1) = Inr (length xs - 1)"
  by (auto simp: norm_index_def Let_def nat_diff_distrib')

lemma norm_index_m2: "2 \<le> n \<Longrightarrow> norm_index n (-2) = Inr (n - 2)"
  by (auto simp: norm_index_def Let_def nat_diff_distrib')

lemma get_next_Inr:
  fixes h :: heap and s :: simulator and dt :: real and nz :: noise
  assumes a: "velocity_time s < next_addr h" "velocity_data s < next_addr h"
      "gforce_time s < next_addr h" "gforce_data s < next_addr h"
    and l: "cells h (velocity_data s) \<noteq> []" "2 \<le> length (cells h (gforce_time s))"
      "cells h (gforce_data s) \<noteq> []"
  defines "n \<equiv> next_addr h"
    and "t \<equiv> elapsed_seconds s + dt"
  defines "nv \<equiv> max 0 (15 + 10 * sin (t / 20) + n_velocity nz)"
    and "ng \<equiv> max 0 (2 + 3 * exp (- ((py_mod t 30 - 15)\<^sup>2) / 50) + n_gforce nz)"
    and "vd' \<equiv> tl (cells h (velocity_data s)) @ [max 0 (15 + 10 * sin (t / 20) + n_velocity nz)]"
    and "gt' \<equiv> tl (cells h (gforce_time s)) @ [last (cells h (gforce_time s)) + 0.055]"
  defines "gd' \<equiv> tl (cells h (gforce_data s)) @ [ng]"
  shows "get_next (h, s) dt nz =
    Inr (\<lparr>pressure = 101.3 + sin (t / 10) * 2 + n_pressure nz,
          temperature = 24.8 + sin (t / 15 + 1) * 3 + n_temperature nz,
          altitude = 1245.8 + t * 2.5 + sin (t / 8) * 50,
          altitude_rate = 12.4 + sin (t / 7) * 8,
          latency = max 10 (min 100 (24 + n_latency nz)),
          pkt_velocity_time = n + 3, pkt_velocity_data = n + 4,
          pkt_gforce_time = n + 5, pkt_gforce_data = n + 6,
          new_velocity = nv, new_gforce = ng\<rparr>,
         (h\<lparr>cells := (cells h)(n := vd', n + 1 := gt', n + 2 := gd',
                     n + 3 := cells h (velocity_time s), n + 4 := vd', n + 5 := gt', n + 6 := gd'),
           next_addr := n + 7\<rparr>,
          s\<lparr>elapsed_seconds := t, velocity_data := n, gforce_time := n + 1, gforce_data := n + 2\<rparr>))"
proof -
  have ne: "cells h (gforce_time s) \<noteq> []" using l by auto
  show ?thesis
  using a l ne unfolding n_def t_def nv_def ng_def vd'_def gt'_def gd'_def
  apply (simp add: get_next_def np_roll_def np_copy_def alloc_def setitem_def getitem_def
      norm_index_m1 norm_index_m2 rotate1_set_last rotate1_nth_penult Let_def eval_nat_numeral)
  done
qed

lemma length_linspace: "length (linspace a b n) = n"
  by (simp add: linspace_def)

lemma linspace_map:
  assumes "2 \<le> n"
  shows "linspace a b n = map (\<lambda>i. a + real i * ((b - a) / real (n - 1))) [0..<n]"
proof -
  have "(map (\<lambda>i. a + real i * ((b - a) / real (n - 1))) [0..<n])[n - 1 := b]
      = map (\<lambda>i. a + real i * ((b - a) / real (n - 1))) [0..<n]"
    using assms by (intro nth_equalityI) (auto simp: nth_list_update)
  then show ?thesis using assms by (simp add: linspace_def)
qed

lemma sorted_linspace:
  assumes "a < b" "2 \<le> n"
  shows "sorted_wrt (<) (linspace a b n)"
proof -
  define d where "d = (b - a) / real (n - 1)"
  have pos: "0 < d" using assms by (simp add: d_def)
  have step: "a + real i * d < a + real j * d" if "i < j" for i j :: nat
    using that pos by simp
  have "sorted_wrt (\<lambda>i j. a + real i * d < a + real j * d) [0..<n]"
    by (rule sorted_wrt_mono_rel[OF _ sorted_wrt_upt]) (rule step)
  then show ?thesis using assms by (simp add: linspace_map sorted_wrt_map d_def)
qed

lemma sorted_wrt_le_last:
  "sorted_wrt (<) xs \<Longrightarrow> x \<in> set xs \<Longrightarrow> x \<le> last (xs :: real list)"
proof (induction xs)
  case Nil
  then show ?case by simp
next
  case (Cons y ys)
  show ?case
  proof (cases "ys = []")
    case True
    with Cons.prems show ?thesis by simp
  next
    case False
    then have "last ys \<in> set ys" by simp
    with Cons False show ?thesis by (auto intro: less_imp_le)
  qed
qed

lemma sorted_shift:
  assumes "sorted_wrt (<) (xs :: real list)" "xs \<noteq> []" "0 < d"
  shows "sorted_wrt (<) (tl xs @ [last xs + d])"
proof -
  have "sorted_wrt (<) (tl xs)" using assms by (cases xs) auto
  moreover have "\<forall>x \<in> set (tl xs). x < last xs + d"
    using sorted_wrt_le_last[OF assms(1)] assms(2,3) by (cases xs) fastforce+
  ultimately show ?thesis by (simp add: sorted_wrt_append)
qed

lemma reset_eq:
  "reset (h, s) =
     (h\<lparr>cells := (cells h)(next_addr h := linspace (-120) 0 100,
                 next_addr h + 1 := replicate 100 0,
                 next_addr h + 2 := linspace (-1.5) 4.0 100,
                 next_addr h + 3 := replicate 100 0),
        next_addr := next_addr h + 4\<rparr>,
      s\<lparr>elapsed_seconds := 0, velocity_time := next_addr h, velocity_data := next_addr h + 1,
        gforce_time := next_addr h + 2, gforce_data := next_addr h + 3\<rparr>)"
  by (simp add: reset_def alloc_def zeros_like_def length_linspace eval_nat_numeral
      del: replicate.simps replicate_Suc)

lemma init_eq:
  "init =
     (\<lparr>cells = (\<lambda>_. [])(0 := linspace (-120) 0 100, 1 := replicate 100 0,
                 2 := linspace (-1.5) 4.0 100, 3 := replicate 100 0),
        next_addr = 4\<rparr>,
      \<lparr>elapsed_seconds = 0, velocity_time = 0, velocity_data = 1,
        gforce_time = 2, gforce_data = 3\<rparr>)"
  by (simp add: init_def empty_heap_def alloc_def zeros_like_def length_linspace eval_nat_numeral
      del: replicate.simps replicate_Suc)

lemma inv_init: "inv init {}"
  by (simp add: init_eq inv_def length_linspace sorted_linspace)

lemma inv_reset:
  assumes "inv st H"
  shows "inv (reset st) H"
proof -
  obtain h s where st: "st = (h, s)" by (cases st)
  have "\<forall>a\<in>H. a < next_addr h" using assms by (simp add: inv_def st)
  then have "next_addr h \<notin> H" "next_addr h + 1 \<notin> H" "next_addr h + 2 \<notin> H"
    "next_addr h + 3 \<notin> H" "\<forall>a\<in>H. a < next_addr h + 4"
    by fastforce+
  then show ?thesis
    by (simp add: st reset_eq inv_def length_linspace sorted_linspace)
qed

lemma inv_write:
  assumes "inv st H" "a \<in> H"
  shows "inv (consumer_write st a xs) H"
proof -
  obtain h s where st: "st = (h, s)" by (cases st)
  have "a \<noteq> velocity_time s" "a \<noteq> velocity_data s" "a \<noteq> gforce_time s"
    "a \<noteq> gforce_data s"
    using assms by (auto simp: inv_def st)
  then show ?thesis
    using assms(1) by (simp add: st consumer_write_def inv_def)
qed

lemma get_next_summary:
  assumes "inv (h, s) H"
  obtains smp h' s' where
    "get_next (h, s) dt nz = Inr (smp, (h', s'))"
    "elapsed_seconds s' = elapsed_seconds s + dt"
    "velocity_time s' = velocity_time s"
    "velocity_data s' = next_addr h"
    "gforce_time s' = next_addr h + 1"
    "gforce_data s' = next_addr h + 2"
    "next_addr h' = next_addr h + 7"
    "cells h' (velocity_time s') = cells h (velocity_time s)"
    "cells h' (velocity_data s') = tl (cells h (velocity_data s)) @ [new_velocity smp]"
    "cells h' (gforce_time s') =
       tl (cells h (gforce_time s)) @ [last (cells h (gforce_time s)) + 0.055]"
    "cells h' (gforce_data s') = tl (cells h (gforce_data s)) @ [new_gforce smp]"
    "pkt_velocity_time smp = next_addr h + 3"
    "pkt_velocity_data smp = next_addr h + 4"
    "pkt_gforce_time smp = next_addr h + 5"
    "pkt_gforce_data smp = next_addr h + 6"
    "cells h' (pkt_velocity_time smp) = cells h' (velocity_time s')"
    "cells h' (pkt_velocity_data smp) = cells h' (velocity_data s')"
    "cells h' (pkt_gforce_time smp) = cells h' (gforce_time s')"
    "cells h' (pkt_gforce_data smp) = cells h' (gforce_data s')"
    "pressure smp = 101.3 + sin ((elapsed_seconds s + dt) / 10) * 2 + n_pressure nz"
    "temperature smp = 24.8 + sin ((elapsed_seconds s + dt) / 15 + 1) * 3 + n_temperature nz"
    "altitude smp = 1245.8 + (elapsed_seconds s + dt) * 2.5 + sin ((elapsed_seconds s + dt) / 8) * 50"
    "altitude_rate smp = 12.4 + sin ((elapsed_seconds s + dt) / 7) * 8"
    "latency smp = max 10 (min 100 (24 + n_latency nz))"
    "new_velocity smp = max 0 (15 + 10 * sin ((elapsed_seconds s + dt) / 20) + n_velocity nz)"
    "new_gforce smp =
       max 0 (2 + 3 * exp (- ((py_mod (elapsed_seconds s + dt) 30 - 15)\<^sup>2) / 50) + n_gforce nz)"
proof -
  have a: "velocity_time s < next_addr h" "velocity_data s < next_addr h"
    "gforce_time s < next_addr h" "gforce_data s < next_addr h"
    and l: "cells h (velocity_data s) \<noteq> []" "2 \<le> length (cells h (gforce_time s))"
    "cells h (gforce_data s) \<noteq> []"
    using assms by (auto simp: inv_def)
  note eq = get_next_Inr[OF a l, of dt nz]
  show thesis
    by (rule that[OF eq]) (use a in simp_all)
qed

lemma inv_get_next:
  assumes i: "inv st H" and g: "get_next st dt nz = Inr (smp, st')"
  shows "inv st' (H \<union> pkt_arrays smp)"
proof -
  obtain h s where st: "st = (h, s)" by (cases st)
  from i have i': "inv (h, s) H" by (simp add: st)
  from i' obtain smp0 h' s' where
    r: "get_next (h, s) dt nz = Inr (smp0, (h', s'))"
    and f: "velocity_time s' = velocity_time s" "velocity_data s' = next_addr h"
      "gforce_time s' = next_addr h + 1" "gforce_data s' = next_addr h + 2"
      "next_addr h' = next_addr h + 7"
    and c: "cells h' (velocity_time s') = cells h (velocity_time s)"
      "cells h' (velocity_data s') = tl (cells h (velocity_data s)) @ [new_velocity smp0]"
      "cells h' (gforce_time s') =
         tl (cells h (gforce_time s)) @ [last (cells h (gforce_time s)) + 0.055]"
      "cells h' (gforce_data s') = tl (cells h (gforce_data s)) @ [new_gforce smp0]"
    and p: "pkt_velocity_time smp0 = next_addr h + 3" "pkt_velocity_data smp0 = next_addr h + 4"
      "pkt_gforce_time smp0 = next_addr h + 5" "pkt_gforce_data smp0 = next_addr h + 6"
    by (rule get_next_summary[of h s H dt nz]) blast
  from g r have eq: "smp = smp0" "st' = (h', s')" by (simp_all add: st)
  have H: "\<forall>a\<in>H. a < next_addr h" and vt: "velocity_time s < next_addr h"
    "velocity_time s \<notin> H"
    and len: "length (cells h (velocity_data s)) = 100" "length (cells h (gforce_time s)) = 100"
      "length (cells h (gforce_data s)) = 100"
    and so: "sorted_wrt (<) (cells h (gforce_time s))"
    and lin: "cells h (velocity_time s) = linspace (-120) 0 100"
    using i' by (simp_all add: inv_def)
  have ne: "cells h (gforce_time s) \<noteq> []" using len by auto
  have so': "sorted_wrt (<) (cells h' (gforce_time s'))"
    unfolding c by (rule sorted_shift[OF so ne]) simp
  have notH: "next_addr h \<notin> H" "next_addr h + 1 \<notin> H" "next_addr h + 2 \<notin> H"
    and H': "\<forall>a\<in>H. a < next_addr h + 7"
    using H by fastforce+
  have len': "length (cells h' (velocity_data s')) = 100"
    "length (cells h' (gforce_time s')) = 100" "length (cells h' (gforce_data s')) = 100"
    and lin': "cells h' (velocity_time s') = linspace (-120) 0 100"
    using len lin by (simp_all add: c)
  show ?thesis
    unfolding eq inv_def pkt_arrays_def
    using vt notH H' so' len' lin' by (simp add: f p)
qed

lemma reach_inv: "reach st H \<Longrightarrow> inv st H"
  by (induction rule: reach.induct) (auto intro: inv_init inv_reset inv_get_next inv_write)



subsection \<open>Views\<close>

lemma view_of_pair:
  "view_of (h, s) = \<lparr>v_clock = elapsed_seconds s,
     v_velocity_time = cells h (velocity_time s), v_velocity_data = cells h (velocity_data s),
     v_gforce_time = cells h (gforce_time s), v_gforce_data = cells h (gforce_data s)\<rparr>"
  by (simp add: view_of_def)


lemma linspace_ends:
  assumes "2 \<le> n"
  shows "hd (linspace a b n) = a" and "last (linspace a b n) = b"
proof -
  have "linspace a b n \<noteq> []" using assms length_linspace[of a b n] by auto
  then have "hd (linspace a b n) = linspace a b n ! 0" by (simp add: hd_conv_nth)
  also have "\<dots> = a" using assms by (simp add: linspace_map)
  finally show "hd (linspace a b n) = a" .
  show "last (linspace a b n) = b"
    using assms by (simp add: linspace_def last_list_update)
qed

lemma inv_lengths: "inv st H \<Longrightarrow> buffer_lengths st = [100, 100, 100, 100]"
  by (cases st) (simp add: inv_def buffer_lengths_def view_of_pair length_linspace)

lemma view_write:
  assumes "inv st H" "a \<in> H"
  shows "view_of (consumer_write st a xs) = view_of st"
proof -
  obtain h s where st: "st = (h, s)" by (cases st)
  have "a \<noteq> velocity_time s" "a \<noteq> velocity_data s" "a \<noteq> gforce_time s"
    "a \<noteq> gforce_data s"
    using assms by (auto simp: inv_def st)
  then show ?thesis by (simp add: st consumer_write_def view_of_pair)
qed

lemma get_next_view:
  assumes "inv st H"
  obtains smp st' where
    "get_next st dt nz = Inr (smp, st')"
    "inv st' (H \<union> pkt_arrays smp)"
    "view_of st' =
       \<lparr>v_clock = v_clock (view_of st) + dt,
        v_velocity_time = v_velocity_time (view_of st),
        v_velocity_data = tl (v_velocity_data (view_of st)) @ [new_velocity smp],
        v_gforce_time =
          tl (v_gforce_time (view_of st)) @ [last (v_gforce_time (view_of st)) + 0.055],
        v_gforce_data = tl (v_gforce_data (view_of st)) @ [new_gforce smp]\<rparr>"
    "packet_of (fst st') smp =
       \<lparr>pressure = 101.3 + sin ((v_clock (view_of st) + dt) / 10) * 2 + n_pressure nz,
        temperature = 24.8 + sin ((v_clock (view_of st) + dt) / 15 + 1) * 3 + n_temperature nz,
        altitude = 1245.8 + (v_clock (view_of st) + dt) * 2.5
                     + sin ((v_clock (view_of st) + dt) / 8) * 50,
        altitude_rate = 12.4 + sin ((v_clock (view_of st) + dt) / 7) * 8,
        latency = max 10 (min 100 (24 + n_latency nz)),
        pkt_velocity_time = v_velocity_time (view_of st'),
        pkt_velocity_data = v_velocity_data (view_of st'),
        pkt_gforce_time = v_gforce_time (view_of st'),
        pkt_gforce_data = v_gforce_data (view_of st'),
        new_velocity = new_velocity smp, new_gforce = new_gforce smp\<rparr>"
    "new_velocity smp = max 0 (15 + 10 * sin ((v_clock (view_of st) + dt) / 20) + n_velocity nz)"
    "new_gforce smp =
       max 0 (2 + 3 * exp (- ((py_mod (v_clock (view_of st) + dt) 30 - 15)\<^sup>2) / 50)
                + n_gforce nz)"
proof -
  obtain h s where st: "st = (h, s)" by (cases st)
  from assms have i: "inv (h, s) H" by (simp add: st)
  obtain smp h' s' where
    r: "get_next (h, s) dt nz = Inr (smp, (h', s'))"
    and e: "elapsed_seconds s' = elapsed_seconds s + dt"
    and c: "cells h' (velocity_time s') = cells h (velocity_time s)"
      "cells h' (velocity_data s') = tl (cells h (velocity_data s)) @ [new_velocity smp]"
      "cells h' (gforce_time s') =
         tl (cells h (gforce_time s)) @ [last (cells h (gforce_time s)) + 0.055]"
      "cells h' (gforce_data s') = tl (cells h (gforce_data s)) @ [new_gforce smp]"
    and p: "cells h' (pkt_velocity_time smp) = cells h' (velocity_time s')"
      "cells h' (pkt_velocity_data smp) = cells h' (velocity_data s')"
      "cells h' (pkt_gforce_time smp) = cells h' (gforce_time s')"
      "cells h' (pkt_gforce_data smp) = cells h' (gforce_data s')"
    and v: "pressure smp = 101.3 + sin ((elapsed_seconds s + dt) / 10) * 2 + n_pressure nz"
      "temperature smp = 24.8 + sin ((elapsed_seconds s + dt) / 15 + 1) * 3 + n_temperature nz"
      "altitude smp = 1245.8 + (elapsed_seconds s + dt) * 2.5 + sin ((elapsed_seconds s + dt) / 8) * 50"
      "altitude_rate smp = 12.4 + sin ((elapsed_seconds s + dt) / 7) * 8"
      "latency smp = max 10 (min 100 (24 + n_latency nz))"
    and n: "new_velocity smp = max 0 (15 + 10 * sin ((elapsed_seconds s + dt) / 20) + n_velocity nz)"
      "new_gforce smp =
         max 0 (2 + 3 * exp (- ((py_mod (elapsed_seconds s + dt) 30 - 15)\<^sup>2) / 50) + n_gforce nz)"
    by (rule get_next_summary[OF i, of dt nz]) blast
  have r': "get_next st dt nz = Inr (smp, (h', s'))" using r by (simp add: st)
  show thesis
  proof (rule that[OF r' inv_get_next[OF assms r']])
    show "view_of (h', s') =
       \<lparr>v_clock = v_clock (view_of st) + dt,
        v_velocity_time = v_velocity_time (view_of st),
        v_velocity_data = tl (v_velocity_data (view_of st)) @ [new_velocity smp],
        v_gforce_time =
          tl (v_gforce_time (view_of st)) @ [last (v_gforce_time (view_of st)) + 0.055],
        v_gforce_data = tl (v_gforce_data (view_of st)) @ [new_gforce smp]\<rparr>"
      by (simp add: st view_of_pair e c)
    show "packet_of (fst (h', s')) smp =
       \<lparr>pressure = 101.3 + sin ((v_clock (view_of st) + dt) / 10) * 2 + n_pressure nz,
        temperature = 24.8 + sin ((v_clock (view_of st) + dt) / 15 + 1) * 3 + n_temperature nz,
        altitude = 1245.8 + (v_clock (view_of st) + dt) * 2.5
                     + sin ((v_clock (view_of st) + dt) / 8) * 50,
        altitude_rate = 12.4 + sin ((v_clock (view_of st) + dt) / 7) * 8,
        latency = max 10 (min 100 (24 + n_latency nz)),
        pkt_velocity_time = v_velocity_time (view_of (h', s')),
        pkt_velocity_data = v_velocity_data (view_of (h', s')),
        pkt_gforce_time = v_gforce_time (view_of (h', s')),
        pkt_gforce_data = v_gforce_data (view_of (h', s')),
        new_velocity = new_velocity smp, new_gforce = new_gforce smp\<rparr>"
      by (simp add: st view_of_pair packet_of_def p v)
    show "new_velocity smp = max 0 (15 + 10 * sin ((v_clock (view_of st) + dt) / 20) + n_velocity nz)"
      using n by (simp add: st view_of_pair)
    show "new_gforce smp =
       max 0 (2 + 3 * exp (- ((py_mod (v_clock (view_of st) + dt) 30 - 15)\<^sup>2) / 50)
                + n_gforce nz)"
      using n by (simp add: st view_of_pair)
  qed
qed

subsection \<open>Rounding to doubles\<close>

lemma round_half_even_of_int [simp]: "round_half_even (of_int m) = m"
  by (simp add: round_half_even_def)

lemma round_half_even_bounds:
  "of_int (round_half_even q) \<le> q + 1/2" "q - 1/2 \<le> of_int (round_half_even q)"
  unfolding round_half_even_def Let_def by (auto; linarith)+

lemma round_half_even_mono:
  assumes "a \<le> b"
  shows "round_half_even a \<le> round_half_even b"
proof (cases "\<lfloor>a\<rfloor> = \<lfloor>b\<rfloor>")
  case True
  then show ?thesis using assms unfolding round_half_even_def Let_def by auto
next
  case False
  then have "\<lfloor>a\<rfloor> + 1 \<le> \<lfloor>b\<rfloor>" using floor_mono[OF assms] by linarith
  moreover have "round_half_even a \<le> \<lfloor>a\<rfloor> + 1" unfolding round_half_even_def Let_def by auto
  moreover have "\<lfloor>b\<rfloor> \<le> round_half_even b" unfolding round_half_even_def Let_def by auto
  ultimately show ?thesis by linarith
qed

lemma powr2_int:
  "(2::real) powr real_of_int k = 2 powi k"
  "(2::real) powr (real_of_int k + 1) = 2 powi (k + 1)"
  using powr_real_of_int'[of "2::real" k] powr_real_of_int'[of "2::real" "k + 1"]
  by simp_all

lemma log2_bounds:
  assumes "x \<noteq> 0"
  shows "2 powi \<lfloor>log 2 \<bar>x\<bar>\<rfloor> \<le> \<bar>x\<bar>" and "\<bar>x\<bar> < 2 powi (\<lfloor>log 2 \<bar>x\<bar>\<rfloor> + 1)"
proof -
  have "0 < \<bar>x\<bar>" using assms by simp
  then have "2 powr real_of_int \<lfloor>log 2 \<bar>x\<bar>\<rfloor> \<le> \<bar>x\<bar>
      \<and> \<bar>x\<bar> < 2 powr (real_of_int \<lfloor>log 2 \<bar>x\<bar>\<rfloor> + 1)"
    using floor_log_eq_powr_iff[of "\<bar>x\<bar>" 2 "\<lfloor>log 2 \<bar>x\<bar>\<rfloor>"] by simp
  then show "2 powi \<lfloor>log 2 \<bar>x\<bar>\<rfloor> \<le> \<bar>x\<bar>" and "\<bar>x\<bar> < 2 powi (\<lfloor>log 2 \<bar>x\<bar>\<rfloor> + 1)"
    by (simp_all only: powr2_int)
qed

lemma floor_log2_eq:
  assumes "2 powi k \<le> \<bar>x\<bar>" "\<bar>x\<bar> < 2 powi (k + 1)"
  shows "\<lfloor>log 2 \<bar>x\<bar>\<rfloor> = k"
proof -
  have "0 < \<bar>x\<bar>" using assms(1) zero_less_power_int[of "2::real" k] by linarith
  moreover have "2 powr real_of_int k \<le> \<bar>x\<bar>" "\<bar>x\<bar> < 2 powr (real_of_int k + 1)"
    using assms by (simp_all only: powr2_int)
  ultimately show ?thesis
    using floor_log_eq_powr_iff[of "\<bar>x\<bar>" 2 k] by simp
qed

lemma floor_log2_less:
  assumes "x \<noteq> 0" "\<bar>x\<bar> < 2 powi k"
  shows "\<lfloor>log 2 \<bar>x\<bar>\<rfloor> < k"
proof (rule ccontr)
  assume "\<not> \<lfloor>log 2 \<bar>x\<bar>\<rfloor> < k"
  then have "(2::real) powi k \<le> 2 powi \<lfloor>log 2 \<bar>x\<bar>\<rfloor>"
    by (intro power_int_increasing) simp_all
  with log2_bounds(1)[OF assms(1)] assms(2) show False by linarith
qed

lemma ulp_exp_ge: "- 1074 \<le> ulp_exp x"
  by (simp add: ulp_exp_def)

lemma ulp_exp_mono:
  assumes "x \<noteq> 0" "\<bar>x\<bar> \<le> \<bar>y\<bar>"
  shows "ulp_exp x \<le> ulp_exp y"
proof -
  have "log 2 \<bar>x\<bar> \<le> log 2 \<bar>y\<bar>" using assms by simp
  then have "\<lfloor>log 2 \<bar>x\<bar>\<rfloor> \<le> \<lfloor>log 2 \<bar>y\<bar>\<rfloor>" by (rule floor_mono)
  then show ?thesis by (simp add: ulp_exp_def)
qed

lemma abs_less_ulp:
  assumes "x \<noteq> 0"
  shows "\<bar>x\<bar> < 2 powi (ulp_exp x + 53)"
proof -
  have "\<lfloor>log 2 \<bar>x\<bar>\<rfloor> + 1 \<le> ulp_exp x + 53" by (simp add: ulp_exp_def)
  then have "(2::real) powi (\<lfloor>log 2 \<bar>x\<bar>\<rfloor> + 1) \<le> 2 powi (ulp_exp x + 53)"
    by (intro power_int_increasing) simp_all
  with log2_bounds(2)[OF assms] show ?thesis by linarith
qed

lemma grid_coarse:
  fixes x :: real
  assumes "x = of_int m * 2 powi e'" "e \<le> e'"
  shows "\<exists>n::int. x = of_int n * 2 powi e"
proof -
  have "(2::real) powi e' = 2 powi (e' - e) * 2 powi e"
    by (simp add: power_int_add[symmetric])
  also have "(2::real) powi (e' - e) = 2 ^ nat (e' - e)"
    using assms(2) by (simp add: power_int_nonneg_exp)
  finally have "x = of_int (m * 2 ^ nat (e' - e)) * 2 powi e"
    using assms(1) by simp
  then show ?thesis by blast
qed

lemma float_round_grid:
  assumes "x = of_int m * 2 powi e" "ulp_exp x \<le> e"
  shows "float_round x = x"
proof (cases "x = 0")
  case True
  then show ?thesis by (simp add: float_round_def)
next
  case False
  obtain n :: int where n: "x = of_int n * 2 powi ulp_exp x"
    using grid_coarse[OF assms] by blast
  have "x / 2 powi ulp_exp x = of_int n"
    by (subst n) simp
  then show ?thesis using False n by (simp add: float_round_def)
qed

lemma float_round_repr_less:
  assumes "\<bar>m\<bar> < 2 ^ 53" "- 1074 \<le> e"
  shows "float_round (of_int m * 2 powi e) = of_int m * 2 powi e"
proof (cases "m = 0")
  case True
  then show ?thesis by (simp add: float_round_def)
next
  case False
  define z :: real where "z = of_int m * 2 powi e"
  have z0: "z \<noteq> 0" using False by (simp add: z_def)
  have "real_of_int \<bar>m\<bar> < real_of_int (2 ^ 53)"
    using assms(1) by (simp only: of_int_less_iff)
  then have "\<bar>real_of_int m\<bar> < 2 ^ 53" by simp
  then have "\<bar>z\<bar> < 2 ^ 53 * 2 powi e"
    by (simp add: z_def abs_mult)
  also have "\<dots> = 2 powi (e + 53)"
    by (simp add: power_int_add)
  finally have "\<lfloor>log 2 \<bar>z\<bar>\<rfloor> < e + 53" by (rule floor_log2_less[OF z0])
  then have "ulp_exp z \<le> e" using assms(2) by (simp add: ulp_exp_def)
  then show ?thesis using float_round_grid[of z m e] by (simp add: z_def)
qed

lemma float_round_repr:
  assumes "\<bar>m\<bar> \<le> 2 ^ 53" "- 1074 \<le> e"
  shows "float_round (of_int m * 2 powi e) = of_int m * 2 powi e"
proof (cases "\<bar>m\<bar> < 2 ^ 53")
  case True
  then show ?thesis by (rule float_round_repr_less[OF _ assms(2)])
next
  case False
  then have m: "m = 2 ^ 53 \<or> m = - (2 ^ 53)" using assms(1) by linarith
  have p: "(2::real) powi (e + 1) = 2 * 2 powi e" by (simp add: power_int_add)
  have "real_of_int m * 2 powi e = of_int (m div 2) * 2 powi (e + 1)"
    using m by (auto simp: p)
  moreover have "\<bar>m div 2\<bar> < 2 ^ 53" using m by auto
  ultimately show ?thesis
    using float_round_repr_less[of "m div 2" "e + 1"] assms(2) by simp
qed

lemma round_half_even_abs_le:
  assumes "\<bar>q\<bar> < 2 ^ 53"
  shows "\<bar>round_half_even q\<bar> \<le> 2 ^ 53"
proof -
  have u: "q \<le> of_int (2 ^ 53)" and l: "of_int (- (2 ^ 53)) \<le> q" using assms by simp_all
  have "round_half_even q \<le> round_half_even (of_int (2 ^ 53))"
    by (rule round_half_even_mono[OF u])
  moreover have "round_half_even (of_int (- (2 ^ 53))) \<le> round_half_even q"
    by (rule round_half_even_mono[OF l])
  ultimately have "round_half_even q \<le> 2 ^ 53" "- (2 ^ 53) \<le> round_half_even q"
    by (simp_all only: round_half_even_of_int)
  then show ?thesis by linarith
qed

lemma scaled_abs_less:
  assumes "x \<noteq> 0"
  shows "\<bar>x / 2 powi ulp_exp x\<bar> < 2 ^ 53"
proof -
  have "\<bar>x\<bar> < 2 ^ 53 * 2 powi ulp_exp x"
    using abs_less_ulp[OF assms] by (simp add: power_int_add)
  then show ?thesis by (simp add: abs_divide pos_divide_less_eq)
qed

lemma float_round_idem: "float_round (float_round x) = float_round x"
proof (cases "x = 0")
  case True
  then show ?thesis by (simp add: float_round_def)
next
  case False
  have "\<bar>round_half_even (x / 2 powi ulp_exp x)\<bar> \<le> 2 ^ 53"
    by (rule round_half_even_abs_le[OF scaled_abs_less[OF False]])
  then have "float_round (of_int (round_half_even (x / 2 powi ulp_exp x)) * 2 powi ulp_exp x)
      = of_int (round_half_even (x / 2 powi ulp_exp x)) * 2 powi ulp_exp x"
    by (rule float_round_repr[OF _ ulp_exp_ge])
  then show ?thesis using False by (simp add: float_round_def)
qed

lemma float_round_lower:
  assumes fx: "float_round x = x" and le: "x \<le> y"
  shows "x \<le> float_round y"
proof (cases "y = 0")
  case True
  then show ?thesis using le by (simp add: float_round_def)
next
  case y0: False
  define e where "e = ulp_exp y"
  define P :: real where "P = 2 powi e"
  have P: "0 < P" by (simp add: P_def)
  have ry: "float_round y = of_int (round_half_even (y / P)) * P"
    using y0 by (simp add: float_round_def P_def e_def)
  show ?thesis
  proof (cases "x = 0")
    case True
    then have "0 \<le> y / P" using le P by simp
    then have "round_half_even (of_int 0) \<le> round_half_even (y / P)"
      by (intro round_half_even_mono) simp
    then have "0 \<le> round_half_even (y / P)" by (simp only: round_half_even_of_int)
    then show ?thesis using True P by (simp add: ry)
  next
    case x0: False
    have gx: "x = of_int (round_half_even (x / 2 powi ulp_exp x)) * 2 powi ulp_exp x"
      using fx x0 by (simp add: float_round_def)
    show ?thesis
    proof (cases "e \<le> ulp_exp x")
      case True
      obtain n :: int where n: "x = of_int n * P"
        using grid_coarse[OF gx True] unfolding P_def by blast
      have "of_int n \<le> y / P" using le P by (simp add: n pos_le_divide_eq)
      then have "round_half_even (of_int n) \<le> round_half_even (y / P)"
        by (rule round_half_even_mono)
      then have "n \<le> round_half_even (y / P)" by (simp only: round_half_even_of_int)
      then have "real_of_int n \<le> of_int (round_half_even (y / P))" by simp
      then show ?thesis using P by (simp add: ry n)
    next
      case False
      then have lt: "ulp_exp x < e" by simp
      then have e: "e = \<lfloor>log 2 \<bar>y\<bar>\<rfloor> - 52"
        using ulp_exp_ge[of x] unfolding e_def ulp_exp_def by linarith
      have "\<lfloor>log 2 \<bar>x\<bar>\<rfloor> - 52 \<le> ulp_exp x" by (simp add: ulp_exp_def)
      then have k: "\<lfloor>log 2 \<bar>x\<bar>\<rfloor> + 1 \<le> e + 52" using lt by linarith
      have "\<bar>x\<bar> < 2 powi (\<lfloor>log 2 \<bar>x\<bar>\<rfloor> + 1)" by (rule log2_bounds(2)[OF x0])
      also have "\<dots> \<le> 2 powi (e + 52)"
        using k by (intro power_int_increasing) simp_all
      finally have xk: "\<bar>x\<bar> < 2 powi (e + 52)" .
      have yk: "2 powi (e + 52) \<le> \<bar>y\<bar>"
        using log2_bounds(1)[OF y0] by (simp add: e)
      have ypos: "0 < y" using xk yk le by linarith
      have pk: "(2::real) powi (e + 52) = 2 ^ 52 * P" by (simp add: P_def power_int_add)
      have "of_int (2 ^ 52) \<le> y / P" using yk ypos P by (simp add: pk pos_le_divide_eq)
      then have "round_half_even (of_int (2 ^ 52)) \<le> round_half_even (y / P)"
        by (rule round_half_even_mono)
      then have "2 ^ 52 \<le> round_half_even (y / P)" by (simp only: round_half_even_of_int)
      then have "real_of_int (2 ^ 52) \<le> of_int (round_half_even (y / P))"
        by (simp only: of_int_le_iff)
      then have "2 ^ 52 * P \<le> of_int (round_half_even (y / P)) * P" using P by simp
      then show ?thesis using xk by (simp add: ry pk)
    qed
  qed
qed

lemma round_half_even_minus: "round_half_even (- q) = - round_half_even q"
proof (cases "q = of_int \<lfloor>q\<rfloor>")
  case True
  then obtain n :: int where "q = of_int n" by blast
  then have "- q = of_int (- n)" by simp
  then show ?thesis using \<open>q = of_int n\<close> by (simp only: round_half_even_of_int)
next
  case False
  then have f: "\<lfloor>- q\<rfloor> = - \<lfloor>q\<rfloor> - 1"
    by (intro floor_unique) (linarith+)
  show ?thesis
    unfolding round_half_even_def Let_def f using False by (auto; linarith)
qed

lemma float_round_minus: "float_round (- x) = - float_round x"
  by (simp add: float_round_def ulp_exp_def round_half_even_minus)

lemma float_round_upper:
  assumes "float_round y = y" "x \<le> y"
  shows "float_round x \<le> y"
proof -
  have "float_round (- y) = - y" using assms(1) by (simp add: float_round_minus)
  then have "- y \<le> float_round (- x)" using assms(2) by (intro float_round_lower) simp_all
  then show ?thesis by (simp add: float_round_minus)
qed

lemma float_round_max_double: "float_round max_double = max_double"
  using float_round_repr[of "2 ^ 53 - 1" 971] by (simp add: max_double_def)

lemma float_round_abs_le:
  assumes "\<bar>x\<bar> \<le> max_double"
  shows "\<bar>float_round x\<bar> \<le> max_double"
proof -
  have "float_round x \<le> max_double"
    using assms by (intro float_round_upper[OF float_round_max_double]) simp
  moreover have "float_round (- max_double) = - max_double"
    by (simp add: float_round_minus float_round_max_double)
  then have "- max_double \<le> float_round x"
    using assms by (intro float_round_lower) simp_all
  ultimately show ?thesis by simp
qed

lemma is_double_float_round: "\<bar>float_round x\<bar> \<le> max_double \<Longrightarrow> is_double (float_round x)"
  by (simp add: is_double_def float_round_idem)

lemma advance_clock_Some:
  "advance_clock c dt = Some c' \<longleftrightarrow> c' = float_round (c + dt) \<and> \<bar>float_round (c + dt)\<bar> \<le> max_double"
  by (auto simp: advance_clock_def float_add_def Let_def)

lemma is_double_repr:
  assumes "\<bar>m\<bar> < 2 ^ 53" "- 1074 \<le> e" "e \<le> 971"
  shows "is_double (of_int m * 2 powi e)"
proof -
  have "real_of_int \<bar>m\<bar> \<le> real_of_int (2 ^ 53 - 1)"
    using assms(1) by (simp only: of_int_le_iff)
  then have m: "\<bar>real_of_int m\<bar> \<le> 2 ^ 53 - 1" by simp
  have "(2::real) powi e \<le> 2 powi 971"
    using assms(3) by (intro power_int_increasing) simp_all
  then have e: "(2::real) powi e \<le> 2 ^ 971" by simp
  have "\<bar>real_of_int m * 2 powi e\<bar> = \<bar>real_of_int m\<bar> * 2 powi e" by (simp add: abs_mult)
  also have "\<dots> \<le> (2 ^ 53 - 1) * 2 ^ 971"
    using m e by (intro mult_mono) simp_all
  finally show ?thesis
    using float_round_repr_less[OF assms(1,2)] by (simp add: is_double_def max_double_def)
qed

lemma is_double_examples:
  "is_double 0" "is_double 1" "is_double (1/2)" "is_double (3/4)"
  using is_double_repr[of 0 0] is_double_repr[of 1 0] is_double_repr[of 1 "-1"]
    is_double_repr[of 3 "-2"]
  by (simp_all add: power_int_minus)

lemma float_round_absorb: "float_round (1 + 1 / 2 ^ 60) = 1"
proof -
  define x :: real where "x = 1 + 1 / 2 ^ 60"
  have "2 powi 0 \<le> \<bar>x\<bar>" "\<bar>x\<bar> < 2 powi (0 + 1)" by (simp_all add: x_def)
  then have "\<lfloor>log 2 \<bar>x\<bar>\<rfloor> = 0" by (rule floor_log2_eq)
  then have u: "ulp_exp x = - 52" by (simp add: ulp_exp_def)
  have q: "x / 2 powi (- 52) = 2 ^ 52 + 1 / 256"
    by (simp add: x_def power_int_minus field_simps)
  have "\<lfloor>(2::real) ^ 52 + 1 / 256\<rfloor> = 2 ^ 52" by (intro floor_unique) simp_all
  then have r: "round_half_even (2 ^ 52 + 1 / 256) = 2 ^ 52"
    by (simp add: round_half_even_def)
  have x0: "x \<noteq> 0" by (simp add: x_def)
  have "float_round x = of_int (round_half_even (x / 2 powi ulp_exp x)) * 2 powi ulp_exp x"
    using x0 by (simp add: float_round_def)
  also have "\<dots> = of_int (2 ^ 52) * 2 powi (- 52)" by (simp only: u q r)
  also have "\<dots> = 1" by (simp add: power_int_minus)
  finally show ?thesis by (simp only: x_def)
qed

lemma advance_clock_exact: "is_double (c + dt) \<Longrightarrow> advance_clock c dt = Some (c + dt)"
  by (simp add: advance_clock_Some is_double_def)

lemma advance_clock_step:
  assumes "is_double c" "0 < dt" "advance_clock c dt = Some c'"
  shows "c \<le> c'" and "is_double c'"
proof -
  have c': "c' = float_round (c + dt)" and b: "\<bar>float_round (c + dt)\<bar> \<le> max_double"
    using assms(3) by (simp_all add: advance_clock_Some)
  have "float_round c = c" using assms(1) by (simp add: is_double_def)
  then show "c \<le> c'" unfolding c' using assms(2) by (intro float_round_lower) simp_all
  show "is_double c'" unfolding c' by (rule is_double_float_round[OF b])
qed

lemma clock_run_increasing:
  assumes "is_double c" "\<forall>d\<in>set dts. 0 < d" "clock_run c dts = Some cs"
  shows "length cs = length dts \<and> list_all is_double cs \<and> sorted_wrt (\<le>) (c # cs)"
  using assms
proof (induction dts arbitrary: c cs)
  case Nil
  then show ?case by simp
next
  case (Cons d dts)
  from Cons.prems(3) obtain c' cs' where a: "advance_clock c d = Some c'"
    and r: "clock_run c' dts = Some cs'" and cs: "cs = c' # cs'"
    by (auto split: option.splits)
  have d: "0 < d" and ds: "\<forall>d\<in>set dts. 0 < d" using Cons.prems(2) by simp_all
  have le: "c \<le> c'" and dc: "is_double c'"
    using advance_clock_step[OF Cons.prems(1) d a] by simp_all
  from Cons.IH[OF dc ds r] have ih: "length cs' = length dts" "list_all is_double cs'"
    "sorted_wrt (\<le>) (c' # cs')" by simp_all
  then have "\<forall>x\<in>set cs'. c \<le> x" using le by fastforce
  then show ?case using ih le dc by (simp add: cs)
qed

lemma max_double_ge_1: "1 \<le> max_double"
  by (simp add: max_double_def)

text \<open>Where the exact sum is a double, the clock \<open>get_next\<close> leaves is the clock of the
  rounded addition.\<close>

lemma get_next_clock_double:
  assumes "reach st H" "is_double (elapsed_seconds (snd st) + dt)"
  shows "\<exists>smp st'. get_next st dt nz = Inr (smp, st')
           \<and> advance_clock (elapsed_seconds (snd st)) dt = Some (elapsed_seconds (snd st'))"
proof -
  obtain h s where st: "st = (h, s)" by (cases st)
  have i: "inv (h, s) H" using reach_inv[OF assms(1)] by (simp add: st)
  obtain smp h' s' where "get_next (h, s) dt nz = Inr (smp, (h', s'))"
    and "elapsed_seconds s' = elapsed_seconds s + dt"
    by (rule get_next_summary[OF i, of dt nz]) blast
  then show ?thesis
    using advance_clock_exact[OF assms(2)] by (simp add: st)
qed

subsection \<open>The claims\<close>

text \<open>
  C1. Two calls with the positive steps 1 and \<open>1 / 2 ^ 60\<close> on a new simulator leave
  the clock at 1 and at 1: the second step is absorbed by the rounding of the sum, the
  clock does not increase by that step and is not strictly increasing.
\<close>

theorem C1_small_step_absorbed_counterexample:
  "clock_run 0 [1, 1 / 2 ^ 60] = Some [1, 1]"
proof -
  have a1: "advance_clock 0 1 = Some 1"
    using advance_clock_exact[of 0 1] is_double_examples by simp
  have a2: "advance_clock 1 (1 / 2 ^ 60) = Some 1"
    using float_round_absorb max_double_ge_1 by (simp add: advance_clock_Some)
  show ?thesis using a1 a2 by simp
qed

text \<open>
  C1, as the code has it. From a clock that is a double, a call whose sum does not
  overflow sets the clock to the double nearest to clock plus step; that is exactly clock
  plus step whenever this sum is a double, and for a positive step the clock does not
  decrease. Over a sequence of positive steps without overflow every clock is a double
  and the clocks are increasing, not always strictly.
\<close>

theorem C1_clock_rounded_step:
  assumes "is_double c"
  shows "(\<bar>c + dt\<bar> \<le> max_double \<longrightarrow>
           (\<exists>c'. advance_clock c dt = Some c' \<and> c' = float_round (c + dt) \<and> is_double c'
              \<and> (0 < dt \<longrightarrow> c \<le> c')
              \<and> (is_double (c + dt) \<longrightarrow> c' = c + dt)))
       \<and> ((\<forall>d\<in>set dts. 0 < d) \<longrightarrow>
           (\<forall>cs. clock_run c dts = Some cs \<longrightarrow>
              length cs = length dts \<and> list_all is_double cs \<and> sorted_wrt (\<le>) (c # cs)))"
proof (rule conjI)
  show "\<bar>c + dt\<bar> \<le> max_double \<longrightarrow>
           (\<exists>c'. advance_clock c dt = Some c' \<and> c' = float_round (c + dt) \<and> is_double c'
              \<and> (0 < dt \<longrightarrow> c \<le> c')
              \<and> (is_double (c + dt) \<longrightarrow> c' = c + dt))"
  proof (rule impI)
    assume b: "\<bar>c + dt\<bar> \<le> max_double"
    have b': "\<bar>float_round (c + dt)\<bar> \<le> max_double" by (rule float_round_abs_le[OF b])
    then have a: "advance_clock c dt = Some (float_round (c + dt))"
      by (simp add: advance_clock_Some)
    have "0 < dt \<longrightarrow> c \<le> float_round (c + dt)"
      using advance_clock_step(1)[OF assms _ a] by blast
    moreover have "is_double (c + dt) \<longrightarrow> float_round (c + dt) = c + dt"
      by (simp add: is_double_def)
    ultimately show "\<exists>c'. advance_clock c dt = Some c' \<and> c' = float_round (c + dt)
              \<and> is_double c' \<and> (0 < dt \<longrightarrow> c \<le> c')
              \<and> (is_double (c + dt) \<longrightarrow> c' = c + dt)"
      using a is_double_float_round[OF b'] by blast
  qed
  show "(\<forall>d\<in>set dts. 0 < d) \<longrightarrow>
           (\<forall>cs. clock_run c dts = Some cs \<longrightarrow>
              length cs = length dts \<and> list_all is_double cs \<and> sorted_wrt (\<le>) (c # cs))"
    using clock_run_increasing[OF assms] by blast
qed

theorem C1_clock_rounded_step_witness:
  "is_double 0 \<and> \<bar>0 + 1/2\<bar> \<le> max_double \<and> (0::real) < 1/2 \<and> (0::real) < 1/4
     \<and> advance_clock 0 (1/2) = Some (1/2)
     \<and> clock_run 0 [1/2, 1/4] = Some [1/2, 3/4]
     \<and> sorted_wrt (\<le>) [0::real, 1/2, 3/4]"
proof -
  have a1: "advance_clock 0 (1/2) = Some (1/2)"
    using advance_clock_exact[of 0 "1/2"] is_double_examples by simp
  have a2: "advance_clock (1/2) (1/4) = Some (3/4)"
    using advance_clock_exact[of "1/2" "1/4"] is_double_examples by simp
  have r: "clock_run 0 [1/2, 1/4] = Some [1/2, 3/4]" by (simp add: a1 a2)
  have b: "\<bar>(0::real) + 1/2\<bar> \<le> max_double" using max_double_ge_1 by simp
  have p: "\<forall>d\<in>set [1/2, 1/4::real]. 0 < d" by simp
  from C1_clock_rounded_step[OF is_double_examples(1), of "1/2" "[1/2, 1/4]"] b p r
  have "sorted_wrt (\<le>) (0 # [1/2, 3/4::real])" by blast
  then show ?thesis using is_double_examples(1) a1 r b by simp
qed

text \<open>
  C2. In every reachable state, for every step and every noise draw, \<open>get_next\<close> returns
  a packet whose latency lies in the closed interval from 10 to 100 and whose
  instantaneous velocity and g-force are not negative.
\<close>

theorem C2_clamps:
  assumes "reach st H"
  shows "\<exists>smp st'. get_next st dt nz = Inr (smp, st')
           \<and> 10 \<le> latency smp \<and> latency smp \<le> 100
           \<and> 0 \<le> new_velocity smp \<and> 0 \<le> new_gforce smp"
proof -
  obtain h s where st: "st = (h, s)" by (cases st)
  have i: "inv (h, s) H" using reach_inv[OF assms] by (simp add: st)
  obtain smp h' s' where "get_next (h, s) dt nz = Inr (smp, (h', s'))"
    and "latency smp = max 10 (min 100 (24 + n_latency nz))"
    and "new_velocity smp = max 0 (15 + 10 * sin ((elapsed_seconds s + dt) / 20) + n_velocity nz)"
    and "new_gforce smp =
       max 0 (2 + 3 * exp (- ((py_mod (elapsed_seconds s + dt) 30 - 15)\<^sup>2) / 50) + n_gforce nz)"
    by (rule get_next_summary[OF i, of dt nz]) blast
  then show ?thesis unfolding st by simp
qed

theorem C2_clamps_witness:
  "reach init {} \<and> (\<exists>smp st'. get_next init (1/2) zero_noise = Inr (smp, st')
      \<and> 10 \<le> latency smp \<and> latency smp \<le> 100
      \<and> 0 \<le> new_velocity smp \<and> 0 \<le> new_gforce smp)"
  using C2_clamps[OF reach_init, of "1/2" zero_noise] by (simp add: reach_init)





text \<open>
  C4. In every reachable state (after the constructor, after every \<open>reset\<close> and after
  every \<open>get_next\<close>) the four arrays of the two history buffers have 100 elements, and
  so they have right after a further \<open>reset\<close> and after a further \<open>get_next\<close>. Each
  \<open>get_next\<close> drops the oldest velocity value, g-force value and g-force time and
  appends the new one at the end.
\<close>

theorem C4_buffer_lengths:
  assumes "reach st H"
  shows "buffer_lengths st = [100, 100, 100, 100]
       \<and> buffer_lengths (reset st) = [100, 100, 100, 100]
       \<and> (\<exists>smp st'. get_next st dt nz = Inr (smp, st')
             \<and> buffer_lengths st' = [100, 100, 100, 100]
             \<and> v_velocity_data (view_of st')
                 = tl (v_velocity_data (view_of st)) @ [new_velocity smp]
             \<and> v_gforce_data (view_of st')
                 = tl (v_gforce_data (view_of st)) @ [new_gforce smp]
             \<and> v_gforce_time (view_of st')
                 = tl (v_gforce_time (view_of st)) @ [last (v_gforce_time (view_of st)) + 0.055])"
proof -
  have i: "inv st H" by (rule reach_inv[OF assms])
  obtain smp st' where g: "get_next st dt nz = Inr (smp, st')"
    and i': "inv st' (H \<union> pkt_arrays smp)"
    and v: "view_of st' =
       \<lparr>v_clock = v_clock (view_of st) + dt,
        v_velocity_time = v_velocity_time (view_of st),
        v_velocity_data = tl (v_velocity_data (view_of st)) @ [new_velocity smp],
        v_gforce_time =
          tl (v_gforce_time (view_of st)) @ [last (v_gforce_time (view_of st)) + 0.055],
        v_gforce_data = tl (v_gforce_data (view_of st)) @ [new_gforce smp]\<rparr>"
    by (rule get_next_view[OF i, of dt nz]) blast
  have "buffer_lengths st = [100, 100, 100, 100]" by (rule inv_lengths[OF i])
  moreover have "buffer_lengths (reset st) = [100, 100, 100, 100]"
    by (rule inv_lengths[OF inv_reset[OF i]])
  moreover have "buffer_lengths st' = [100, 100, 100, 100]" by (rule inv_lengths[OF i'])
  ultimately show ?thesis using g by (simp add: v)
qed

theorem C4_buffer_lengths_witness:
  "reach init {} \<and> buffer_lengths init = [100, 100, 100, 100]
     \<and> buffer_lengths (reset init) = [100, 100, 100, 100]
     \<and> (\<exists>smp st'. get_next init (1/2) zero_noise = Inr (smp, st')
           \<and> buffer_lengths st' = [100, 100, 100, 100])"
  using C4_buffer_lengths[OF reach_init, of "1/2" zero_noise] by (auto simp: reach_init)

text \<open>
  C5. In every reachable state the velocity time axis is \<open>linspace (-120) 0 100\<close>: 100
  points, the first \<open>-120\<close>, the last \<open>0\<close>. A call of \<open>get_next\<close> keeps the array
  object and its contents; of the velocity buffer only the value array moves.
\<close>

theorem C5_velocity_time_fixed:
  assumes "reach st H"
  shows "v_velocity_time (view_of st) = linspace (-120) 0 100
       \<and> length (v_velocity_time (view_of st)) = 100
       \<and> hd (v_velocity_time (view_of st)) = -120
       \<and> last (v_velocity_time (view_of st)) = 0
       \<and> (\<exists>smp st'. get_next st dt nz = Inr (smp, st')
             \<and> velocity_time (snd st') = velocity_time (snd st)
             \<and> v_velocity_time (view_of st') = v_velocity_time (view_of st)
             \<and> v_velocity_data (view_of st')
                 = tl (v_velocity_data (view_of st)) @ [new_velocity smp])"
proof -
  obtain h s where st: "st = (h, s)" by (cases st)
  have i: "inv (h, s) H" using reach_inv[OF assms] by (simp add: st)
  then have lin: "v_velocity_time (view_of st) = linspace (-120) 0 100"
    by (simp add: st inv_def view_of_pair)
  obtain smp h' s' where "get_next (h, s) dt nz = Inr (smp, (h', s'))"
    and "velocity_time s' = velocity_time s"
    and "cells h' (velocity_time s') = cells h (velocity_time s)"
    and "cells h' (velocity_data s') = tl (cells h (velocity_data s)) @ [new_velocity smp]"
    by (rule get_next_summary[OF i, of dt nz]) blast
  then have "\<exists>smp st'. get_next st dt nz = Inr (smp, st')
             \<and> velocity_time (snd st') = velocity_time (snd st)
             \<and> v_velocity_time (view_of st') = v_velocity_time (view_of st)
             \<and> v_velocity_data (view_of st')
                 = tl (v_velocity_data (view_of st)) @ [new_velocity smp]"
    by (simp add: st view_of_pair)
  then show ?thesis
    by (simp add: lin length_linspace linspace_ends)
qed

theorem C5_velocity_time_fixed_witness:
  "reach init {} \<and> v_velocity_time (view_of init) = linspace (-120) 0 100
     \<and> (\<exists>smp st'. get_next init (1/2) zero_noise = Inr (smp, st')
           \<and> v_velocity_time (view_of st') = linspace (-120) 0 100)"
  using C5_velocity_time_fixed[OF reach_init, of "1/2" zero_noise] by (auto simp: reach_init)

text \<open>
  C6. In every reachable state, for every step \<open>dt\<close>, \<open>get_next\<close> drops the oldest
  g-force time and appends the newest one plus 0.055: the newest time grows by exactly
  0.055, whatever \<open>dt\<close> is.
\<close>

theorem C6_gforce_time_step:
  assumes "reach st H"
  shows "\<exists>smp st'. get_next st dt nz = Inr (smp, st')
           \<and> v_gforce_time (view_of st')
               = tl (v_gforce_time (view_of st)) @ [last (v_gforce_time (view_of st)) + 0.055]
           \<and> last (v_gforce_time (view_of st')) = last (v_gforce_time (view_of st)) + 0.055
           \<and> last (v_gforce_time (view_of st)) < last (v_gforce_time (view_of st'))"
proof -
  have i: "inv st H" by (rule reach_inv[OF assms])
  obtain smp st' where g: "get_next st dt nz = Inr (smp, st')"
    and v: "view_of st' =
       \<lparr>v_clock = v_clock (view_of st) + dt,
        v_velocity_time = v_velocity_time (view_of st),
        v_velocity_data = tl (v_velocity_data (view_of st)) @ [new_velocity smp],
        v_gforce_time =
          tl (v_gforce_time (view_of st)) @ [last (v_gforce_time (view_of st)) + 0.055],
        v_gforce_data = tl (v_gforce_data (view_of st)) @ [new_gforce smp]\<rparr>"
    by (rule get_next_view[OF i, of dt nz]) blast
  show ?thesis using g by (simp add: v)
qed

lemma last_gforce_time_init: "last (v_gforce_time (view_of init)) = 4"
  by (simp add: init_eq view_of_pair linspace_ends)

theorem C6_gforce_time_step_witness:
  "reach init {}
     \<and> (\<exists>smp st'. get_next init 7 zero_noise = Inr (smp, st')
           \<and> last (v_gforce_time (view_of st')) = 4.055)"
  using C6_gforce_time_step[OF reach_init, of 7 zero_noise]
  by (auto simp: reach_init last_gforce_time_init)


text \<open>
  C7. In every reachable state \<open>get_next\<close> returns a packet whose four arrays are
  objects created by that call, none of them one of the simulator's own arrays, with the
  contents the simulator's arrays have when the call returns. Writing anything into an
  array of this packet, or of any packet handed out before, leaves the simulator's clock
  and the contents of its four arrays as they are.
\<close>

theorem C7_defensive_copies:
  assumes "reach st H"
  shows "\<exists>smp st'. get_next st dt nz = Inr (smp, st')
           \<and> pkt_arrays smp \<inter> owned (snd st') = {}
           \<and> (\<forall>a\<in>pkt_arrays smp. next_addr (fst st) \<le> a \<and> a < next_addr (fst st'))
           \<and> pkt_velocity_time (packet_of (fst st') smp) = v_velocity_time (view_of st')
           \<and> pkt_velocity_data (packet_of (fst st') smp) = v_velocity_data (view_of st')
           \<and> pkt_gforce_time (packet_of (fst st') smp) = v_gforce_time (view_of st')
           \<and> pkt_gforce_data (packet_of (fst st') smp) = v_gforce_data (view_of st')
           \<and> (\<forall>a\<in>H \<union> pkt_arrays smp. \<forall>xs.
                 view_of (consumer_write st' a xs) = view_of st')"
proof -
  obtain h s where st: "st = (h, s)" by (cases st)
  have i0: "inv st H" by (rule reach_inv[OF assms])
  then have i: "inv (h, s) H" by (simp add: st)
  obtain smp h' s' where g: "get_next (h, s) dt nz = Inr (smp, (h', s'))"
    and n: "next_addr h' = next_addr h + 7"
    and a: "pkt_velocity_time smp = next_addr h + 3" "pkt_velocity_data smp = next_addr h + 4"
      "pkt_gforce_time smp = next_addr h + 5" "pkt_gforce_data smp = next_addr h + 6"
    and p: "cells h' (pkt_velocity_time smp) = cells h' (velocity_time s')"
      "cells h' (pkt_velocity_data smp) = cells h' (velocity_data s')"
      "cells h' (pkt_gforce_time smp) = cells h' (gforce_time s')"
      "cells h' (pkt_gforce_data smp) = cells h' (gforce_data s')"
    by (rule get_next_summary[OF i, of dt nz]) blast
  have g': "get_next st dt nz = Inr (smp, (h', s'))" using g by (simp add: st)
  have i': "inv (h', s') (H \<union> pkt_arrays smp)" by (rule inv_get_next[OF i0 g'])
  have disj: "pkt_arrays smp \<inter> owned s' = {}"
    using i' by (auto simp: inv_def owned_def)
  have new: "\<forall>a\<in>pkt_arrays smp. next_addr h \<le> a \<and> a < next_addr h'"
    by (simp add: pkt_arrays_def a n)
  have cp: "pkt_velocity_time (packet_of h' smp) = v_velocity_time (view_of (h', s'))"
    "pkt_velocity_data (packet_of h' smp) = v_velocity_data (view_of (h', s'))"
    "pkt_gforce_time (packet_of h' smp) = v_gforce_time (view_of (h', s'))"
    "pkt_gforce_data (packet_of h' smp) = v_gforce_data (view_of (h', s'))"
    by (simp_all add: packet_of_def view_of_pair p)
  have wr: "\<forall>a\<in>H \<union> pkt_arrays smp. \<forall>xs.
      view_of (consumer_write (h', s') a xs) = view_of (h', s')"
    using view_write[OF i'] by blast
  show ?thesis
    using g' disj new cp wr by (simp add: st)
qed

theorem C7_defensive_copies_witness:
  "reach init {}
     \<and> (\<exists>smp st'. get_next init (1/2) zero_noise = Inr (smp, st')
           \<and> pkt_velocity_data smp \<notin> owned (snd st')
           \<and> view_of (consumer_write st' (pkt_velocity_data smp) []) = view_of st'
           \<and> view_of (consumer_write st' (pkt_gforce_time smp) [1, 2]) = view_of st')"
proof -
  obtain smp st' where g: "get_next init (1/2) zero_noise = Inr (smp, st')"
    and d: "pkt_arrays smp \<inter> owned (snd st') = {}"
    and w: "\<forall>a\<in>{} \<union> pkt_arrays smp. \<forall>xs. view_of (consumer_write st' a xs) = view_of st'"
    using C7_defensive_copies[OF reach_init, of "1/2" zero_noise] by blast
  have m: "pkt_velocity_data smp \<in> pkt_arrays smp" "pkt_gforce_time smp \<in> pkt_arrays smp"
    by (simp_all add: pkt_arrays_def)
  have "pkt_velocity_data smp \<notin> owned (snd st')" using d m by blast
  moreover have "view_of (consumer_write st' (pkt_velocity_data smp) []) = view_of st'"
    "view_of (consumer_write st' (pkt_gforce_time smp) [1, 2]) = view_of st'"
    using w m by simp_all
  ultimately show ?thesis using g reach_init by blast
qed

lemma trace_same_view:
  assumes "inv st1 H1" "inv st2 H2" "view_of st1 = view_of st2"
  shows "trace st1 steps = trace st2 steps
       \<and> (\<exists>obs. trace st1 steps = Inr obs \<and> length obs = length steps)"
  using assms
proof (induction steps arbitrary: st1 st2 H1 H2)
  case Nil
  show ?case by simp
next
  case (Cons step rest)
  obtain dt nz where step: "step = (dt, nz)" by (cases step)
  obtain smp1 st1' where g1: "get_next st1 dt nz = Inr (smp1, st1')"
    and i1: "inv st1' (H1 \<union> pkt_arrays smp1)"
    and v1: "view_of st1' =
       \<lparr>v_clock = v_clock (view_of st1) + dt,
        v_velocity_time = v_velocity_time (view_of st1),
        v_velocity_data = tl (v_velocity_data (view_of st1)) @ [new_velocity smp1],
        v_gforce_time =
          tl (v_gforce_time (view_of st1)) @ [last (v_gforce_time (view_of st1)) + 0.055],
        v_gforce_data = tl (v_gforce_data (view_of st1)) @ [new_gforce smp1]\<rparr>"
    and p1: "packet_of (fst st1') smp1 =
       \<lparr>pressure = 101.3 + sin ((v_clock (view_of st1) + dt) / 10) * 2 + n_pressure nz,
        temperature = 24.8 + sin ((v_clock (view_of st1) + dt) / 15 + 1) * 3 + n_temperature nz,
        altitude = 1245.8 + (v_clock (view_of st1) + dt) * 2.5
                     + sin ((v_clock (view_of st1) + dt) / 8) * 50,
        altitude_rate = 12.4 + sin ((v_clock (view_of st1) + dt) / 7) * 8,
        latency = max 10 (min 100 (24 + n_latency nz)),
        pkt_velocity_time = v_velocity_time (view_of st1'),
        pkt_velocity_data = v_velocity_data (view_of st1'),
        pkt_gforce_time = v_gforce_time (view_of st1'),
        pkt_gforce_data = v_gforce_data (view_of st1'),
        new_velocity = new_velocity smp1, new_gforce = new_gforce smp1\<rparr>"
    and n1: "new_velocity smp1
        = max 0 (15 + 10 * sin ((v_clock (view_of st1) + dt) / 20) + n_velocity nz)"
      "new_gforce smp1 =
       max 0 (2 + 3 * exp (- ((py_mod (v_clock (view_of st1) + dt) 30 - 15)\<^sup>2) / 50)
                + n_gforce nz)"
    by (rule get_next_view[OF Cons.prems(1), of dt nz]) blast
  obtain smp2 st2' where g2: "get_next st2 dt nz = Inr (smp2, st2')"
    and i2: "inv st2' (H2 \<union> pkt_arrays smp2)"
    and v2: "view_of st2' =
       \<lparr>v_clock = v_clock (view_of st2) + dt,
        v_velocity_time = v_velocity_time (view_of st2),
        v_velocity_data = tl (v_velocity_data (view_of st2)) @ [new_velocity smp2],
        v_gforce_time =
          tl (v_gforce_time (view_of st2)) @ [last (v_gforce_time (view_of st2)) + 0.055],
        v_gforce_data = tl (v_gforce_data (view_of st2)) @ [new_gforce smp2]\<rparr>"
    and p2: "packet_of (fst st2') smp2 =
       \<lparr>pressure = 101.3 + sin ((v_clock (view_of st2) + dt) / 10) * 2 + n_pressure nz,
        temperature = 24.8 + sin ((v_clock (view_of st2) + dt) / 15 + 1) * 3 + n_temperature nz,
        altitude = 1245.8 + (v_clock (view_of st2) + dt) * 2.5
                     + sin ((v_clock (view_of st2) + dt) / 8) * 50,
        altitude_rate = 12.4 + sin ((v_clock (view_of st2) + dt) / 7) * 8,
        latency = max 10 (min 100 (24 + n_latency nz)),
        pkt_velocity_time = v_velocity_time (view_of st2'),
        pkt_velocity_data = v_velocity_data (view_of st2'),
        pkt_gforce_time = v_gforce_time (view_of st2'),
        pkt_gforce_data = v_gforce_data (view_of st2'),
        new_velocity = new_velocity smp2, new_gforce = new_gforce smp2\<rparr>"
    and n2: "new_velocity smp2
        = max 0 (15 + 10 * sin ((v_clock (view_of st2) + dt) / 20) + n_velocity nz)"
      "new_gforce smp2 =
       max 0 (2 + 3 * exp (- ((py_mod (v_clock (view_of st2) + dt) 30 - 15)\<^sup>2) / 50)
                + n_gforce nz)"
    by (rule get_next_view[OF Cons.prems(2), of dt nz]) blast
  have nn: "new_velocity smp1 = new_velocity smp2" "new_gforce smp1 = new_gforce smp2"
    by (simp_all add: n1 n2 Cons.prems(3))
  have vv: "view_of st1' = view_of st2'"
    by (simp add: v1 v2 nn Cons.prems(3))
  have pp: "packet_of (fst st1') smp1 = packet_of (fst st2') smp2"
    by (simp add: p1 p2 nn vv Cons.prems(3))
  from Cons.IH[OF i1 i2 vv] obtain obs where
    t: "trace st1' rest = trace st2' rest" "trace st1' rest = Inr obs" "length obs = length rest"
    by blast
  have t1: "trace st1' rest = Inr obs" and t2: "trace st2' rest = Inr obs"
    using t by simp_all
  show ?case
    by (simp add: step g1 g2 t1 t2 vv pp t(3))
qed

lemma view_reset:
  "view_of (reset st) =
     \<lparr>v_clock = 0, v_velocity_time = linspace (-120) 0 100, v_velocity_data = replicate 100 0,
      v_gforce_time = linspace (-1.5) 4.0 100, v_gforce_data = replicate 100 0\<rparr>"
  by (cases st) (simp add: reset_eq view_of_pair del: replicate.simps replicate_Suc)

lemma view_init:
  "view_of init =
     \<lparr>v_clock = 0, v_velocity_time = linspace (-120) 0 100, v_velocity_data = replicate 100 0,
      v_gforce_time = linspace (-1.5) 4.0 100, v_gforce_data = replicate 100 0\<rparr>"
  by (simp add: init_eq view_of_pair del: replicate.simps replicate_Suc)

lemma inv_reset_any: "inv (reset st) {}"
  by (cases st) (simp add: reset_eq inv_def length_linspace sorted_linspace)

text \<open>
  C8. After \<open>reset\<close>, from any state, the clock is 0, the time axes are the initial
  ranges and both value arrays are 100 zeros, as in a new simulator. Every sequence of
  \<open>get_next\<close> calls then returns, and with the same steps and the same noise draws it
  gives the packets and the simulator contents (the clock among them) that a new
  simulator gives.
\<close>

theorem C8_reset_as_new:
  "view_of (reset st) =
     \<lparr>v_clock = 0, v_velocity_time = linspace (-120) 0 100, v_velocity_data = replicate 100 0,
      v_gforce_time = linspace (-1.5) 4.0 100, v_gforce_data = replicate 100 0\<rparr>
   \<and> view_of (reset st) = view_of init
   \<and> trace (reset st) steps = trace init steps
   \<and> (\<exists>obs. trace init steps = Inr obs \<and> length obs = length steps)"
proof -
  have v: "view_of (reset st) = view_of init" by (simp only: view_reset view_init)
  have "trace (reset st) steps = trace init steps
       \<and> (\<exists>obs. trace (reset st) steps = Inr obs \<and> length obs = length steps)"
    by (rule trace_same_view[OF inv_reset_any inv_init v])
  then obtain obs where e: "trace (reset st) steps = trace init steps"
    and o: "trace (reset st) steps = Inr obs" "length obs = length steps"
    by blast
  have "trace init steps = Inr obs" using e o(1) by simp
  then have "\<exists>obs. trace init steps = Inr obs \<and> length obs = length steps"
    using o(2) by blast
  then show ?thesis using v e view_reset[of st] by blast
qed


text \<open>
  C9. A new simulator, \<open>reset\<close>, then one \<open>get_next\<close> with step 0.5 and all five noise
  draws 0: the call returns, the clock is 0.5, the pressure is 101.3 + 2 sin 0.05, the
  altitude is 1245.8 + 1.25 + 50 sin 0.0625 and the latency is 24.
\<close>

theorem C9_first_sample_without_noise:
  "\<exists>smp st'. get_next (reset init) 0.5 zero_noise = Inr (smp, st')
      \<and> elapsed_seconds (snd st') = 0.5
      \<and> pressure smp = 101.3 + 2 * sin 0.05
      \<and> altitude smp = 1245.8 + 1.25 + 50 * sin 0.0625
      \<and> latency smp = 24"
proof -
  obtain h s where st: "reset init = (h, s)" by (cases "reset init")
  have i: "inv (h, s) {}" using inv_reset_any[of init] by (simp add: st)
  have "v_clock (view_of (reset init)) = 0" by (simp add: view_reset)
  then have c: "elapsed_seconds s = 0" by (simp add: st view_of_pair)
  obtain smp h' s' where "get_next (h, s) 0.5 zero_noise = Inr (smp, (h', s'))"
    and "elapsed_seconds s' = elapsed_seconds s + 0.5"
    and "pressure smp = 101.3 + sin ((elapsed_seconds s + 0.5) / 10) * 2 + n_pressure zero_noise"
    and "altitude smp = 1245.8 + (elapsed_seconds s + 0.5) * 2.5
           + sin ((elapsed_seconds s + 0.5) / 8) * 50"
    and "latency smp = max 10 (min 100 (24 + n_latency zero_noise))"
    by (rule get_next_summary[OF i, of "0.5" zero_noise]) blast
  then show ?thesis
    by (simp add: st c zero_noise_def)
qed

text \<open>
  C10. In every packet \<open>get_next\<close> returns from a reachable state, \<open>new_velocity\<close> is
  the last element of the packet's velocity values, \<open>new_gforce\<close> is the last element of
  its g-force values, and its g-force times are strictly increasing.
\<close>

theorem C10_packet_consistent:
  assumes "reach st H"
  shows "\<exists>smp st'. get_next st dt nz = Inr (smp, st')
           \<and> pkt_velocity_data (packet_of (fst st') smp) \<noteq> []
           \<and> new_velocity smp = last (pkt_velocity_data (packet_of (fst st') smp))
           \<and> pkt_gforce_data (packet_of (fst st') smp) \<noteq> []
           \<and> new_gforce smp = last (pkt_gforce_data (packet_of (fst st') smp))
           \<and> sorted_wrt (<) (pkt_gforce_time (packet_of (fst st') smp))"
proof -
  obtain h s where st: "st = (h, s)" by (cases st)
  have i0: "inv st H" by (rule reach_inv[OF assms])
  then have i: "inv (h, s) H" by (simp add: st)
  obtain smp h' s' where g: "get_next (h, s) dt nz = Inr (smp, (h', s'))"
    and c: "cells h' (velocity_data s') = tl (cells h (velocity_data s)) @ [new_velocity smp]"
      "cells h' (gforce_data s') = tl (cells h (gforce_data s)) @ [new_gforce smp]"
    and p: "cells h' (pkt_velocity_data smp) = cells h' (velocity_data s')"
      "cells h' (pkt_gforce_time smp) = cells h' (gforce_time s')"
      "cells h' (pkt_gforce_data smp) = cells h' (gforce_data s')"
    by (rule get_next_summary[OF i, of dt nz]) blast
  have g': "get_next st dt nz = Inr (smp, (h', s'))" using g by (simp add: st)
  have "inv (h', s') (H \<union> pkt_arrays smp)" by (rule inv_get_next[OF i0 g'])
  then have so: "sorted_wrt (<) (cells h' (gforce_time s'))" by (simp add: inv_def)
  show ?thesis
    using g' so by (simp add: packet_of_def p c)
qed

theorem C10_packet_consistent_witness:
  "reach init {}
     \<and> (\<exists>smp st'. get_next init (1/2) zero_noise = Inr (smp, st')
           \<and> new_velocity smp = last (pkt_velocity_data (packet_of (fst st') smp))
           \<and> new_gforce smp = last (pkt_gforce_data (packet_of (fst st') smp))
           \<and> sorted_wrt (<) (pkt_gforce_time (packet_of (fst st') smp)))"
  using C10_packet_consistent[OF reach_init, of "1/2" zero_noise] by (auto simp: reach_init)


end
